theory Spec2Isabelle
  imports Main
begin

section \<open>Python values\<close>

text \<open>
  A Python \<open>str\<close> is a sequence of Unicode code points, so a string is a list of
  code points (natural numbers), not of bytes. \<open>str\<close> reads an ASCII literal.
\<close>

type_synonym codepoint = nat
type_synonym pystr = "codepoint list"

definition str :: "string \<Rightarrow> pystr" where
  "str s = map of_char s"

definition newline :: codepoint where
  "newline = 10"

text \<open>
  The values a capture group can hand to the callback: a string, or \<open>None\<close> for a
  group that took no part in the match. The only exception the two hooks could raise is
  the \<open>IndexError\<close> of a tuple index out of range.
\<close>

datatype pyval = PyStr pystr | PyNone

datatype py_error = IndexError

definition getitem :: "'a list \<Rightarrow> nat \<Rightarrow> py_error + 'a" where
  "getitem xs i = (if i < length xs then Inr (xs ! i) else Inl IndexError)"

text \<open>Interpolation \<open>{x}\<close> in an f-string: a string as it is, \<open>None\<close> as its name.\<close>

fun format_value :: "pyval \<Rightarrow> pystr" where
  "format_value (PyStr s) = s"
| "format_value PyNone = str ''None''"

section \<open>The part of the \<open>re\<close> module the hooks use\<close>

datatype re_flag = IGNORECASE | MULTILINE

text \<open>
  Case-insensitive matching of a \<open>str\<close> pattern compares lower-cased code points and,
  for a pattern letter listed in the table of lower-case letters that share an upper-case
  letter, accepts those as well. Both patterns of this program are ASCII; the tables below
  are the Unicode case tables restricted to what an ASCII pattern character can observe:
  besides the ASCII letters, only U+0130 (lower case \<open>i\<close>) and U+212A (lower case \<open>k\<close>)
  lower-case into ASCII, and the only fixes of an ASCII letter are U+0131 for \<open>i\<close> and
  U+017F for \<open>s\<close>. On every other code point \<open>unicode_tolower\<close> is left as the identity,
  which never yields an ASCII letter or one of its fixes.
\<close>

definition unicode_tolower :: "codepoint \<Rightarrow> codepoint" where
  "unicode_tolower c =
     (if 65 \<le> c \<and> c \<le> 90 then c + 32
      else if c = 0x130 then 0x69
      else if c = 0x212A then 0x6B
      else c)"

definition unicode_iscased :: "codepoint \<Rightarrow> bool" where
  "unicode_iscased c =
     ((65 \<le> c \<and> c \<le> 90) \<or> (97 \<le> c \<and> c \<le> 122)
      \<or> c = 0x130 \<or> c = 0x131 \<or> c = 0x17F \<or> c = 0x212A)"

definition ignorecase_fixes :: "codepoint \<Rightarrow> codepoint list" where
  "ignorecase_fixes lo =
     (if lo = 0x69 then [0x131] else if lo = 0x73 then [0x17F] else [])"

text \<open>
  A parsed pattern. \<open>LITERAL\<close> and \<open>ANY\<close> match one character; \<open>MinRepeatOne a\<close>
  is the lazy repetition \<open>a*?\<close> of a one-character item; \<open>Branch\<close> is alternation,
  left alternative first; \<open>SubPattern g r\<close> is capture group \<open>g\<close>. Neither pattern has
  an anchor, the only construct \<open>MULTILINE\<close> changes.
\<close>

datatype atom = LITERAL codepoint | ANY

datatype regex =
    Empty
  | Atom atom
  | MinRepeatOne atom
  | Cat regex regex
  | Branch regex regex
  | SubPattern nat regex

fun lits :: "pystr \<Rightarrow> regex" where
  "lits [] = Empty"
| "lits (c # cs) = Cat (Atom (LITERAL c)) (lits cs)"

fun ngroups :: "regex \<Rightarrow> nat" where
  "ngroups Empty = 0"
| "ngroups (Atom a) = 0"
| "ngroups (MinRepeatOne a) = 0"
| "ngroups (Cat r1 r2) = ngroups r1 + ngroups r2"
| "ngroups (Branch r1 r2) = ngroups r1 + ngroups r2"
| "ngroups (SubPattern g r) = Suc (ngroups r)"

text \<open>
  One character against one item. Without \<open>re.S\<close> the dot matches any character
  except the newline.
\<close>

fun atom_ok :: "re_flag list \<Rightarrow> atom \<Rightarrow> codepoint \<Rightarrow> bool" where
  "atom_ok fl (LITERAL c) x =
     (if IGNORECASE \<in> set fl \<and> unicode_iscased c
      then unicode_tolower x \<in> set (unicode_tolower c # ignorecase_fixes (unicode_tolower c))
      else x = c)"
| "atom_ok fl ANY x = (x \<noteq> newline)"

text \<open>
  The lazy repetition tries the shortest run first: the candidate lengths in the order
  the engine tries them.
\<close>

fun min_repeat_one :: "(codepoint \<Rightarrow> bool) \<Rightarrow> pystr \<Rightarrow> nat list" where
  "min_repeat_one p [] = [0]"
| "min_repeat_one p (x # xs) = 0 # (if p x then map Suc (min_repeat_one p xs) else [])"

text \<open>
  The backtracking matcher, started at the head of \<open>s\<close>: every way the pattern can
  match there, in the order the engine would reach it, as the number of characters
  consumed and the group captures. The engine's answer is the first entry.
\<close>

type_synonym marks = "nat \<rightharpoonup> pystr"

fun sre_match :: "re_flag list \<Rightarrow> regex \<Rightarrow> pystr \<Rightarrow> marks \<Rightarrow> (nat \<times> marks) list" where
  "sre_match fl Empty s mk = [(0, mk)]"
| "sre_match fl (Atom a) s mk =
     (case s of [] \<Rightarrow> [] | x # xs \<Rightarrow> if atom_ok fl a x then [(1, mk)] else [])"
| "sre_match fl (MinRepeatOne a) s mk = map (\<lambda>n. (n, mk)) (min_repeat_one (atom_ok fl a) s)"
| "sre_match fl (Cat r1 r2) s mk =
     concat (map (\<lambda>(n, mk1). map (\<lambda>(m, mk2). (n + m, mk2)) (sre_match fl r2 (drop n s) mk1))
                 (sre_match fl r1 s mk))"
| "sre_match fl (Branch r1 r2) s mk = sre_match fl r1 s mk @ sre_match fl r2 s mk"
| "sre_match fl (SubPattern g r) s mk =
     map (\<lambda>(n, mk1). (n, mk1(g \<mapsto> take n s))) (sre_match fl r s mk)"

text \<open>
  The match object handed to a callback: the matched text and what \<open>groups()\<close> returns,
  one value for each group of the pattern.
\<close>

record Match =
  group0 :: pystr
  groups :: "pyval list"

definition groups_of :: "regex \<Rightarrow> marks \<Rightarrow> pyval list" where
  "groups_of r mk =
     map (\<lambda>g. case mk g of None \<Rightarrow> PyNone | Some t \<Rightarrow> PyStr t) [1 ..< Suc (ngroups r)]"

text \<open>
  One attempt at the current position. After an empty match the next attempt must advance:
  it takes the first way to match that consumes something.
\<close>

definition match_here :: "re_flag list \<Rightarrow> regex \<Rightarrow> bool \<Rightarrow> pystr \<Rightarrow> (nat \<times> marks) option" where
  "match_here fl r must_advance s =
     (case filter (\<lambda>(n, mk). if must_advance then 0 < n else True) (sre_match fl r s Map.empty) of
        [] \<Rightarrow> None
      | h # _ \<Rightarrow> Some h)"

text \<open>
  \<open>re.sub\<close> with a callable replacement: scan from the left; where the pattern matches,
  call the replacement on the match and go on after the match; where it does not, keep one
  character and try at the next. An exception of the callback ends the call.
\<close>

function sub_loop ::
  "re_flag list \<Rightarrow> regex \<Rightarrow> (Match \<Rightarrow> py_error + pystr) \<Rightarrow> bool \<Rightarrow> pystr \<Rightarrow> py_error + pystr"
where
  "sub_loop fl r repl must_advance s =
     (case match_here fl r must_advance s of
        None \<Rightarrow>
          (case s of
             [] \<Rightarrow> Inr []
           | x # xs \<Rightarrow>
               (case sub_loop fl r repl False xs of
                  Inl e \<Rightarrow> Inl e
                | Inr out \<Rightarrow> Inr (x # out)))
      | Some (n, mk) \<Rightarrow>
          (case repl \<lparr>group0 = take n s, groups = groups_of r mk\<rparr> of
             Inl e \<Rightarrow> Inl e
           | Inr item \<Rightarrow>
               (case sub_loop fl r repl (n = 0) (drop n s) of
                  Inl e \<Rightarrow> Inl e
                | Inr out \<Rightarrow> Inr (item @ out))))"
  by pat_completeness auto
termination
proof (relation "measure (\<lambda>(fl, r, repl, adv, s). 2 * length s + (if adv then 0 else 1))")
  show "wf (measure (\<lambda>(fl, r, repl, adv, s). 2 * length s + (if adv then 0 else (1::nat))))"
    by simp
next
  fix fl :: "re_flag list" and r :: regex and repl :: "Match \<Rightarrow> py_error + pystr"
    and must_advance :: bool and s :: pystr and x xs
  assume "s = x # xs"
  then show "((fl, r, repl, False, xs), (fl, r, repl, must_advance, s))
      \<in> measure (\<lambda>(fl, r, repl, adv, s). 2 * length s + (if adv then 0 else 1))"
    by simp
next
  fix fl :: "re_flag list" and r :: regex and repl :: "Match \<Rightarrow> py_error + pystr"
    and must_advance :: bool and s :: pystr and h n mk item
  assume hit: "match_here fl r must_advance s = Some h" and h: "(n, mk) = h"
  have bound: "k \<le> length t" if "(k, m') \<in> set (sre_match fl q t m)" for q t m k m'
    using that
  proof (induction q arbitrary: t m k m')
    case (MinRepeatOne a)
    have "j \<le> length u" if "j \<in> set (min_repeat_one p u)" for p u j
      using that by (induction u arbitrary: j) (auto split: if_splits)
    with MinRepeatOne show ?case by auto
  next
    case (Cat q1 q2)
    then show ?case by (fastforce split: list.splits if_splits)
  qed (auto split: list.splits if_splits)
  from hit h have mem: "(n, mk) \<in> set (sre_match fl r s Map.empty)"
    and adv: "must_advance \<Longrightarrow> 0 < n"
    by (auto simp: match_here_def filter_eq_Cons_iff split: list.splits)
  from bound [OF mem] adv
  show "((fl, r, repl, n = 0, drop n s), (fl, r, repl, must_advance, s))
      \<in> measure (\<lambda>(fl, r, repl, adv, s). 2 * length s + (if adv then 0 else 1))"
    by (cases "n = 0") auto
qed

declare sub_loop.simps [simp del]

definition re_sub ::
  "regex \<Rightarrow> (Match \<Rightarrow> py_error + pystr) \<Rightarrow> pystr \<Rightarrow> re_flag list \<Rightarrow> py_error + pystr" where
  "re_sub pattern repl string fl = sub_loop fl pattern repl False string"

section \<open>remove-must-fail.py\<close>

text \<open>
  Both files name their hook \<open>on_page_markdown\<close>; here each carries its file's name.
  The pattern \<open>,must-fail\<close> is ten literals, and the replacement \<open>''\<close> has no
  escape, so it is the empty string for every match.
\<close>

definition must_fail :: pystr where
  "must_fail = str '',must-fail''"

definition remove_must_fail_on_page_markdown ::
  "pystr \<Rightarrow> 'page \<Rightarrow> 'config \<Rightarrow> 'files \<Rightarrow> py_error + pystr" where
  "remove_must_fail_on_page_markdown markdown page config files =
     re_sub (lits must_fail) (\<lambda>m. Inr (str '''')) markdown [IGNORECASE, MULTILINE]"

section \<open>shortcodes.py\<close>

text \<open>
  \<open>_badge_for_version\<close> (here without its underscore) builds the badge from the two
  values the callback \<open>replace\<close> reads off the match.
\<close>

definition badge_for_version :: "pyval \<Rightarrow> pyval \<Rightarrow> pystr" where
  "badge_for_version preposition version =
     (if version = PyStr (str ''next release'')
      then str ''<span class=\"badge\">'' @ format_value preposition @ str '': ''
           @ format_value version @ str ''</span>''
      else (let path = str ''https://github.com/YaLTeR/niri/releases/tag/v'' @ format_value version
            in str ''<span class=\"badge\">['' @ format_value preposition @ str '': ''
               @ format_value version @ str ''](''  @ path @ str '')</span>''))"

definition replace :: "Match \<Rightarrow> py_error + pystr" where
  "replace match =
     (let matches = groups match in
      case getitem matches 0 of
        Inl e \<Rightarrow> Inl e
      | Inr preposition \<Rightarrow>
          (case getitem matches 1 of
             Inl e \<Rightarrow> Inl e
           | Inr version \<Rightarrow> Inr (badge_for_version preposition version)))"

text \<open>The pattern \<open><sup>(Until|Since): (.*?)</sup>\<close>.\<close>

definition badge_pattern :: regex where
  "badge_pattern =
     Cat (lits (str ''<sup>''))
      (Cat (SubPattern 1 (Branch (lits (str ''Until'')) (lits (str ''Since''))))
       (Cat (lits (str '': ''))
        (Cat (SubPattern 2 (MinRepeatOne ANY))
             (lits (str ''</sup>'')))))"

definition shortcodes_on_page_markdown ::
  "pystr \<Rightarrow> 'page \<Rightarrow> 'config \<Rightarrow> 'files \<Rightarrow> py_error + pystr" where
  "shortcodes_on_page_markdown markdown page config files =
     re_sub badge_pattern replace markdown [IGNORECASE, MULTILINE]"

section \<open>What the specification says, as functions on text\<close>

text \<open>
  The specification speaks of case-insensitive occurrences of the two patterns. A pattern
  character and a text character are the same up to case, as the flag \<open>re.I\<close> compares
  them, when their lower cases agree or share an upper case; for ASCII text this is equality
  up to the case of letters.
\<close>

definition caseless :: "codepoint \<Rightarrow> codepoint \<Rightarrow> bool" where
  "caseless c x =
     (unicode_tolower x \<in> set (unicode_tolower c # ignorecase_fixes (unicode_tolower c)))"

fun caseless_prefix :: "pystr \<Rightarrow> pystr \<Rightarrow> bool" where
  "caseless_prefix [] s = True"
| "caseless_prefix (c # cs) [] = False"
| "caseless_prefix (c # cs) (x # xs) = (caseless c x \<and> caseless_prefix cs xs)"

fun caseless_infix :: "pystr \<Rightarrow> pystr \<Rightarrow> bool" where
  "caseless_infix w [] = caseless_prefix w []"
| "caseless_infix w (x # xs) = (caseless_prefix w (x # xs) \<or> caseless_infix w xs)"

text \<open>
  AnnotationStripper as the specification words it: every case-insensitive occurrence of
  \<open>,must-fail\<close> deleted, taken from the left, nothing else altered.
\<close>

function strip_must_fail :: "pystr \<Rightarrow> pystr" where
  "strip_must_fail [] = []"
| "strip_must_fail (x # xs) =
     (if caseless_prefix must_fail (x # xs)
      then strip_must_fail (drop (length must_fail) (x # xs))
      else x # strip_must_fail xs)"
  by pat_completeness auto
termination
  by (relation "measure length") (auto simp: must_fail_def str_def)

text \<open>
  BadgeRenderer as the specification words it. An annotation starts at the head of \<open>s\<close>
  when \<open>s\<close> reads \<open><sup>\<close>, then \<open>Until\<close> or \<open>Since\<close>, then a colon and a space,
  then the version and \<open></sup>\<close>, the fixed parts up to case; the version is the text
  up to the first closing tag (non-greedy) and holds no newline. \<open>version_length\<close> is the
  length of the version of the text after the colon and space, \<open>badge_at\<close> the preposition
  and version as written.
\<close>

fun version_length :: "pystr \<Rightarrow> nat option" where
  "version_length [] = None"
| "version_length (x # xs) =
     (if caseless_prefix (str ''</sup>'') (x # xs) then Some 0
      else if x = newline then None
      else map_option Suc (version_length xs))"

definition badge_at :: "pystr \<Rightarrow> (pystr \<times> pystr) option" where
  "badge_at s =
     (if caseless_prefix (str ''<sup>'') s
         \<and> (caseless_prefix (str ''Until'') (drop 5 s) \<or> caseless_prefix (str ''Since'') (drop 5 s))
         \<and> caseless_prefix (str '': '') (drop 10 s)
      then map_option (\<lambda>n. (take 5 (drop 5 s), take n (drop 12 s))) (version_length (drop 12 s))
      else None)"

definition unlinked_badge :: "pystr \<Rightarrow> pystr \<Rightarrow> pystr" where
  "unlinked_badge p v = str ''<span class=\"badge\">'' @ p @ str '': '' @ v @ str ''</span>''"

definition linked_badge :: "pystr \<Rightarrow> pystr \<Rightarrow> pystr" where
  "linked_badge p v =
     str ''<span class=\"badge\">['' @ p @ str '': '' @ v
     @ str ''](https://github.com/YaLTeR/niri/releases/tag/v'' @ v @ str '')</span>''"

definition badge :: "pystr \<Rightarrow> pystr \<Rightarrow> pystr" where
  "badge p v = (if v = str ''next release'' then unlinked_badge p v else linked_badge p v)"

text \<open>
  Every annotation replaced by its badge, taken from the left; the text of an annotation
  is its eighteen fixed characters and the version.
\<close>

function render_badges :: "pystr \<Rightarrow> pystr" where
  "render_badges [] = []"
| "render_badges (x # xs) =
     (case badge_at (x # xs) of
        None \<Rightarrow> x # render_badges xs
      | Some (p, v) \<Rightarrow> badge p v @ render_badges (drop (18 + length v) (x # xs)))"
  by pat_completeness auto
termination
  by (relation "measure length") auto

text \<open>A text holds an annotation when one starts at some position of it.\<close>

fun has_badge :: "pystr \<Rightarrow> bool" where
  "has_badge [] = False"
| "has_badge (x # xs) = (badge_at (x # xs) \<noteq> None \<or> has_badge xs)"

text \<open>
  A text is a case-insensitive copy of a word when it has the word's length and reads it
  up to case. The lines of a text are the runs between its newlines.
\<close>

definition caseless_eq :: "pystr \<Rightarrow> pystr \<Rightarrow> bool" where
  "caseless_eq w s = (length s = length w \<and> caseless_prefix w s)"

fun split_lines :: "pystr \<Rightarrow> pystr list" where
  "split_lines [] = [[]]"
| "split_lines (x # xs) =
     (if x = newline then [] # split_lines xs
      else (case split_lines xs of [] \<Rightarrow> [[x]] | l # ls \<Rightarrow> (x # l) # ls))"

section \<open>The matcher on a literal pattern\<close>

lemma atom_ok_literal:
  "atom_ok [IGNORECASE, MULTILINE] (LITERAL c) x = caseless c x"
  by (auto simp: caseless_def unicode_iscased_def unicode_tolower_def ignorecase_fixes_def
      split: if_splits)

lemma sre_match_lits:
  "sre_match [IGNORECASE, MULTILINE] (lits w) s mk =
     (if caseless_prefix w s then [(length w, mk)] else [])"
proof (induction w arbitrary: s)
  case Nil
  show ?case by simp
next
  case (Cons c w)
  show ?case
  proof (cases s)
    case Nil
    then show ?thesis by simp
  next
    case (Cons x xs)
    with Cons.IH [of xs] show ?thesis
      by (simp add: atom_ok_literal del: atom_ok.simps)
  qed
qed

lemma match_here_lits:
  assumes "w \<noteq> []"
  shows "match_here [IGNORECASE, MULTILINE] (lits w) adv s =
     (if caseless_prefix w s then Some (length w, Map.empty) else None)"
  using assms by (simp add: match_here_def sre_match_lits)

lemma must_fail_nonempty: "must_fail \<noteq> []"
  by (simp add: must_fail_def str_def)

lemma strip_sub_loop:
  "sub_loop [IGNORECASE, MULTILINE] (lits must_fail) (\<lambda>m. Inr (str '''')) adv s =
     Inr (strip_must_fail s)"
proof (induction s arbitrary: adv rule: strip_must_fail.induct)
  case 1
  have "\<not> caseless_prefix must_fail []"
    by (simp add: must_fail_def str_def)
  then show ?case
    by (subst sub_loop.simps) (simp add: match_here_lits must_fail_nonempty)
next
  case (2 x xs)
  show ?case
  proof (cases "caseless_prefix must_fail (x # xs)")
    case True
    with "2.IH"(1) show ?thesis
      by (subst sub_loop.simps) (simp add: match_here_lits must_fail_nonempty str_def)
  next
    case False
    with "2.IH"(2) show ?thesis
      by (subst sub_loop.simps) (simp add: match_here_lits must_fail_nonempty)
  qed
qed

section \<open>AnnotationStripper\<close>

lemmas eval_text =
  str_def must_fail_def caseless_def unicode_tolower_def ignorecase_fixes_def newline_def

lemma strip_no_occurrence:
  "\<not> caseless_infix must_fail s \<Longrightarrow> strip_must_fail s = s"
  by (induction s) auto

lemma strip_length_le: "length (strip_must_fail s) \<le> length s"
  by (induction s rule: strip_must_fail.induct) (auto simp: must_fail_def str_def)

lemma strip_shorter:
  "caseless_infix must_fail s \<Longrightarrow> length (strip_must_fail s) < length s"
proof (induction s rule: strip_must_fail.induct)
  case 1
  then show ?case by (simp add: must_fail_def str_def)
next
  case (2 x xs)
  show ?case
  proof (cases "caseless_prefix must_fail (x # xs)")
    case True
    with strip_length_le [of "drop (length must_fail) (x # xs)"] show ?thesis
      by (simp add: must_fail_def str_def)
  next
    case False
    with 2 show ?thesis by simp
  qed
qed

lemma strip_fixed_iff:
  "strip_must_fail t = t \<longleftrightarrow> \<not> caseless_infix must_fail t"
  using strip_no_occurrence [of t] strip_shorter [of t] by auto

lemma remove_must_fail_strip:
  "remove_must_fail_on_page_markdown markdown page config files = Inr (strip_must_fail markdown)"
  by (simp add: remove_must_fail_on_page_markdown_def re_sub_def strip_sub_loop)

text \<open>
  C2: for every input, AnnotationStripper returns the input with every case-insensitive
  occurrence of \<open>,must-fail\<close> deleted, the occurrences taken from left to right without
  overlap, and every other character kept in place; \<open>PYTHON,MUST-FAIL\<close> gives
  \<open>PYTHON\<close>.
\<close>

theorem remove_must_fail_deletes_every_occurrence:
  "remove_must_fail_on_page_markdown markdown page config files = Inr (strip_must_fail markdown)"
  by (rule remove_must_fail_strip)

theorem remove_must_fail_deletes_every_occurrence_witness:
  "remove_must_fail_on_page_markdown (str ''PYTHON,MUST-FAIL'') () () () = Inr (str ''PYTHON'')"
  using remove_must_fail_deletes_every_occurrence [of "str ''PYTHON,MUST-FAIL''" "()" "()" "()"]
  by (simp add: eval_text)

text \<open>
  C5: on a string with no case-insensitive occurrence of \<open>,must-fail\<close>,
  AnnotationStripper returns the string itself.
\<close>

theorem remove_must_fail_noop:
  "\<not> caseless_infix must_fail s \<Longrightarrow>
     remove_must_fail_on_page_markdown s page config files = Inr s"
  by (simp add: remove_must_fail_strip strip_no_occurrence)

theorem remove_must_fail_noop_witness:
  "\<not> caseless_infix must_fail (str ''```python'')
   \<and> remove_must_fail_on_page_markdown (str ''```python'') () () () = Inr (str ''```python'')"
proof -
  have h: "\<not> caseless_infix must_fail (str ''```python'')"
    by (simp add: eval_text)
  from h remove_must_fail_noop [OF h, of "()" "()" "()"] show ?thesis
    by simp
qed

text \<open>
  C4, as the claim states it, fails: deleting an occurrence can join the text around it
  into a new one, which only a second pass deletes.
\<close>

theorem remove_must_fail_twice_counterexample:
  "remove_must_fail_on_page_markdown (str '',must,must-fail-fail'') () () ()
     = Inr (str '',must-fail'')
   \<and> remove_must_fail_on_page_markdown (str '',must-fail'') () () () = Inr (str '''')
   \<and> str '',must-fail'' \<noteq> str ''''"
  by (simp add: remove_must_fail_strip) (simp add: eval_text)

text \<open>
  C4, amended: applying AnnotationStripper twice equals applying it once exactly when the
  text it returns the first time has no case-insensitive occurrence of \<open>,must-fail\<close>
  left.
\<close>

theorem remove_must_fail_twice:
  "remove_must_fail_on_page_markdown s page config files = Inr t \<Longrightarrow>
     (remove_must_fail_on_page_markdown t page config files = Inr t
        \<longleftrightarrow> \<not> caseless_infix must_fail t)"
  by (simp add: remove_must_fail_strip strip_fixed_iff)

theorem remove_must_fail_twice_witness:
  "remove_must_fail_on_page_markdown (str ''a,Must-Failb'') () () () = Inr (str ''ab'')
   \<and> remove_must_fail_on_page_markdown (str ''ab'') () () () = Inr (str ''ab'')
   \<and> \<not> caseless_infix must_fail (str ''ab'')"
proof -
  have h: "remove_must_fail_on_page_markdown (str ''a,Must-Failb'') () () () = Inr (str ''ab'')"
    by (simp add: remove_must_fail_strip) (simp add: eval_text)
  have n: "\<not> caseless_infix must_fail (str ''ab'')"
    by (simp add: eval_text)
  from h n remove_must_fail_twice [OF h] show ?thesis
    by simp
qed

section \<open>The matcher on the badge pattern\<close>

lemma sre_match_cat_lits:
  "sre_match [IGNORECASE, MULTILINE] (Cat (lits w) r) s mk =
     (if caseless_prefix w s
      then map (\<lambda>(m, mk2). (length w + m, mk2))
             (sre_match [IGNORECASE, MULTILINE] r (drop (length w) s) mk)
      else [])"
  by (simp add: sre_match_lits)

lemma until_or_since:
  "\<not> (caseless_prefix (str ''Until'') s \<and> caseless_prefix (str ''Since'') s)"
  by (cases s) (auto simp: eval_text split: if_splits)

lemma lit_lengths:
  "length (str ''<sup>'') = 5" "length (str ''Until'') = 5" "length (str ''Since'') = 5"
  "length (str '': '') = 2" "length (str ''</sup>'') = 6"
  by (simp_all add: str_def)

lemma sre_match_preposition:
  "sre_match [IGNORECASE, MULTILINE]
     (SubPattern 1 (Branch (lits (str ''Until'')) (lits (str ''Since'')))) s mk =
     (if caseless_prefix (str ''Until'') s \<or> caseless_prefix (str ''Since'') s
      then [(5, mk(1 \<mapsto> take 5 s))] else [])"
  using until_or_since [of s] by (auto simp: sre_match_lits lit_lengths)

lemma concat_map_if:
  "concat (map (\<lambda>n. if P n then [f n] else []) l) = map f (filter P l)"
  by (induction l) auto

lemma sre_match_version:
  "sre_match [IGNORECASE, MULTILINE] (Cat (SubPattern 2 (MinRepeatOne ANY)) (lits w)) s mk =
     map (\<lambda>n. (n + length w, mk(2 \<mapsto> take n s)))
       (filter (\<lambda>n. caseless_prefix w (drop n s))
          (min_repeat_one (atom_ok [IGNORECASE, MULTILINE] ANY) s))"
proof -
  have "concat (map (\<lambda>n. if caseless_prefix w (drop n s) then [(n + length w, mk(2 \<mapsto> take n s))] else []) l)
      = map (\<lambda>n. (n + length w, mk(2 \<mapsto> take n s))) (filter (\<lambda>n. caseless_prefix w (drop n s)) l)" for l
    by (rule concat_map_if)
  then show ?thesis
    by (simp add: sre_match_lits comp_def if_distrib cong: if_cong)
qed

lemma sre_match_badge_pattern:
  "sre_match [IGNORECASE, MULTILINE] badge_pattern s mk =
     (if caseless_prefix (str ''<sup>'') s
         \<and> (caseless_prefix (str ''Until'') (drop 5 s) \<or> caseless_prefix (str ''Since'') (drop 5 s))
         \<and> caseless_prefix (str '': '') (drop 10 s)
      then map (\<lambda>n. (18 + n, mk(1 \<mapsto> take 5 (drop 5 s), 2 \<mapsto> take n (drop 12 s))))
             (filter (\<lambda>n. caseless_prefix (str ''</sup>'') (drop n (drop 12 s)))
                (min_repeat_one (atom_ok [IGNORECASE, MULTILINE] ANY) (drop 12 s)))
      else [])"
proof -
  let ?fl = "[IGNORECASE, MULTILINE]"
  let ?V = "Cat (SubPattern 2 (MinRepeatOne ANY)) (lits (str ''</sup>''))"
  let ?R = "Cat (lits (str '': '')) ?V"
  let ?P = "SubPattern 1 (Branch (lits (str ''Until'')) (lits (str ''Since'')))"
  have tail: "sre_match ?fl ?R t m =
      (if caseless_prefix (str '': '') t
       then map (\<lambda>n. (8 + n, m(2 \<mapsto> take n (drop 2 t))))
              (filter (\<lambda>n. caseless_prefix (str ''</sup>'') (drop n (drop 2 t)))
                 (min_repeat_one (atom_ok ?fl ANY) (drop 2 t)))
       else [])" for t m
    by (simp only: sre_match_cat_lits sre_match_version lit_lengths) (simp add: comp_def)
  have mid: "sre_match ?fl (Cat ?P ?R) t m =
      (if caseless_prefix (str ''Until'') t \<or> caseless_prefix (str ''Since'') t
       then map (\<lambda>(k, m2). (5 + k, m2)) (sre_match ?fl ?R (drop 5 t) (m(1 \<mapsto> take 5 t)))
       else [])" for t m
    by (simp only: sre_match.simps(4) sre_match_preposition) (simp add: lit_lengths)
  have whole: "sre_match ?fl badge_pattern s mk =
      (if caseless_prefix (str ''<sup>'') s
       then map (\<lambda>(k, m2). (5 + k, m2)) (sre_match ?fl (Cat ?P ?R) (drop 5 s) mk)
       else [])"
    unfolding badge_pattern_def by (simp only: sre_match_cat_lits lit_lengths)
  show ?thesis
    unfolding whole mid tail by (simp add: comp_def add.commute)
qed

lemma first_close:
  "version_length t =
     (case filter (\<lambda>n. caseless_prefix (str ''</sup>'') (drop n t))
             (min_repeat_one (atom_ok [IGNORECASE, MULTILINE] ANY) t) of
        [] \<Rightarrow> None
      | n # _ \<Rightarrow> Some n)"
proof (induction t)
  case Nil
  show ?case by (simp add: str_def)
next
  case (Cons x xs)
  show ?case
    by (simp add: Cons.IH filter_map comp_def split: list.splits)
qed

lemma version_length_bound:
  "version_length t = Some n \<Longrightarrow> n + 6 \<le> length t"
proof (induction t arbitrary: n)
  case Nil
  then show ?case by simp
next
  case (Cons x xs)
  have close: "6 \<le> length u" if "caseless_prefix (str ''</sup>'') u" for u
    using that by (simp add: str_def) (auto simp: neq_Nil_conv dest!: meta_spec elim!: caseless_prefix.elims)
  from Cons show ?case
    by (auto split: if_splits dest: close)
qed


lemma match_here_badge_pattern:
  "match_here [IGNORECASE, MULTILINE] badge_pattern adv s =
     map_option (\<lambda>(p, v). (18 + length v, [1 \<mapsto> p, 2 \<mapsto> v])) (badge_at s)"
proof (cases "version_length (drop 12 s)")
  case None
  then show ?thesis
    by (simp add: match_here_def sre_match_badge_pattern badge_at_def first_close
        split: list.splits)
next
  case (Some n)
  from version_length_bound [OF Some] have "n \<le> length s - 12"
    by simp
  with Some show ?thesis
    by (simp add: match_here_def sre_match_badge_pattern badge_at_def first_close min_def
        split: list.splits)
qed

lemma ngroups_lits: "ngroups (lits w) = 0"
  by (induction w) auto

lemma groups_of_badge_pattern:
  "groups_of badge_pattern [1 \<mapsto> p, 2 \<mapsto> v] = [PyStr p, PyStr v]"
proof -
  have "ngroups badge_pattern = 2"
    by (simp add: badge_pattern_def ngroups_lits)
  moreover have "[1 ..< Suc 2] = [1, 2]"
    by (simp add: upt_rec)
  ultimately show ?thesis
    by (simp add: groups_of_def)
qed

lemma replace_groups:
  "replace \<lparr>group0 = m, groups = [PyStr p, PyStr v]\<rparr> = Inr (badge p v)"
  by (simp add: replace_def getitem_def badge_for_version_def badge_def unlinked_badge_def
      linked_badge_def) (simp add: str_def)

lemma badge_sub_loop:
  "sub_loop [IGNORECASE, MULTILINE] badge_pattern replace adv s = Inr (render_badges s)"
proof (induction s arbitrary: adv rule: render_badges.induct)
  case 1
  have "badge_at [] = None"
    by (simp add: badge_at_def str_def)
  then show ?case
    by (subst sub_loop.simps) (simp add: match_here_badge_pattern)
next
  case (2 x xs)
  show ?case
  proof (cases "badge_at (x # xs)")
    case None
    with "2.IH"(1) show ?thesis
      by (subst sub_loop.simps) (simp add: match_here_badge_pattern)
  next
    case (Some pv)
    obtain p v where pv: "pv = (p, v)"
      by (cases pv)
    have ih: "sub_loop [IGNORECASE, MULTILINE] badge_pattern replace adv'
        (drop (18 + length v) (x # xs)) = Inr (render_badges (drop (18 + length v) (x # xs)))"
      for adv'
      by (rule "2.IH"(2) [OF Some pv [symmetric]])
    have hit: "match_here [IGNORECASE, MULTILINE] badge_pattern adv (x # xs) =
        Some (18 + length v, [1 \<mapsto> p, 2 \<mapsto> v])"
      using Some pv by (simp add: match_here_badge_pattern)
    have out: "render_badges (x # xs) = badge p v @ render_badges (drop (18 + length v) (x # xs))"
      using Some pv by (simp del: drop_Suc_Cons)
    show ?thesis
      by (subst sub_loop.simps)
        (simp only: hit out option.case prod.case groups_of_badge_pattern replace_groups
          sum.case ih)
  qed
qed

section \<open>Case-insensitive prefixes and the version scan\<close>

lemma cp_length: "caseless_prefix w s \<Longrightarrow> length w \<le> length s"
  by (induction w s rule: caseless_prefix.induct) auto

lemma cp_append: "caseless_prefix w s \<Longrightarrow> caseless_prefix w (s @ b)"
  by (induction w s rule: caseless_prefix.induct) auto

lemma cp_restrict:
  "caseless_prefix w (s @ b) \<Longrightarrow> length w \<le> length s \<Longrightarrow> caseless_prefix w s"
  by (induction w s rule: caseless_prefix.induct) auto

lemma cp_no_straddle:
  "caseless_prefix w (u @ c # r) \<Longrightarrow> \<forall>k\<in>set w. \<not> caseless k c \<Longrightarrow> caseless_prefix w u"
  by (induction w u rule: caseless_prefix.induct) auto

lemma cp_take:
  "caseless_prefix w s \<Longrightarrow> caseless_prefix w (take (length w) s)"
  by (induction w s rule: caseless_prefix.induct) auto

lemma infix_iff_drop:
  "caseless_infix w s \<longleftrightarrow> (\<exists>i\<le>length s. caseless_prefix w (drop i s))"
proof (induction s)
  case Nil
  show ?case by simp
next
  case (Cons x xs)
  show ?case
  proof
    assume "caseless_infix w (x # xs)"
    then consider "caseless_prefix w (x # xs)" | "caseless_infix w xs"
      by auto
    then show "\<exists>i\<le>length (x # xs). caseless_prefix w (drop i (x # xs))"
    proof cases
      case 1
      then have "caseless_prefix w (drop 0 (x # xs))" by simp
      then show ?thesis by blast
    next
      case 2
      with Cons.IH obtain i where "i \<le> length xs" "caseless_prefix w (drop i xs)"
        by blast
      then have "Suc i \<le> length (x # xs)" "caseless_prefix w (drop (Suc i) (x # xs))"
        by simp_all
      then show ?thesis by blast
    qed
  next
    assume "\<exists>i\<le>length (x # xs). caseless_prefix w (drop i (x # xs))"
    then obtain i where i: "i \<le> length (x # xs)" "caseless_prefix w (drop i (x # xs))"
      by blast
    show "caseless_infix w (x # xs)"
    proof (cases i)
      case 0
      with i show ?thesis by simp
    next
      case (Suc j)
      with i have "j \<le> length xs" "caseless_prefix w (drop j xs)"
        by simp_all
      with Cons.IH show ?thesis by auto
    qed
  qed
qed

lemma vl_append:
  "version_length t = Some n \<Longrightarrow> version_length (t @ b) = Some n"
proof (induction t arbitrary: n)
  case Nil
  then show ?case by simp
next
  case (Cons x xs)
  show ?case
  proof (cases "caseless_prefix (str ''</sup>'') (x # xs)")
    case True
    with cp_append [OF True, of b] Cons.prems show ?thesis
      by simp
  next
    case False
    with Cons.prems obtain m where m: "x \<noteq> newline" "version_length xs = Some m" "n = Suc m"
      by (auto split: if_splits)
    from version_length_bound [OF m(2)] have "6 \<le> length (x # xs)"
      by simp
    with False have "\<not> caseless_prefix (str ''</sup>'') ((x # xs) @ b)"
      using cp_restrict [of "str ''</sup>''" "x # xs" b] by (auto simp: lit_lengths)
    with m Cons.IH [OF m(2)] show ?thesis
      by simp
  qed
qed

lemma vl_restrict:
  "version_length (t @ b) = Some n \<Longrightarrow> n + 6 \<le> length t \<Longrightarrow> version_length t = Some n"
proof (induction t arbitrary: n)
  case Nil
  then show ?case by simp
next
  case (Cons x xs)
  show ?case
  proof (cases "caseless_prefix (str ''</sup>'') (x # xs @ b)")
    case True
    with Cons.prems have "n = 0" by simp
    with Cons.prems True cp_restrict [of "str ''</sup>''" "x # xs" b] show ?thesis
      by (simp add: lit_lengths)
  next
    case False
    with Cons.prems obtain m where m: "x \<noteq> newline" "version_length (xs @ b) = Some m" "n = Suc m"
      by (auto split: if_splits)
    from False cp_append [of "str ''</sup>''" "x # xs" b]
    have "\<not> caseless_prefix (str ''</sup>'') (x # xs)"
      by auto
    with m Cons.IH [OF m(2)] Cons.prems(2) show ?thesis
      by simp
  qed
qed

lemma vl_close:
  "version_length t = Some n \<Longrightarrow>
     caseless_prefix (str ''</sup>'') (drop n t) \<and> newline \<notin> set (take n t)"
  by (induction t arbitrary: n) (auto split: if_splits)


lemma badge_at_SomeD:
  assumes "badge_at s = Some (p, v)"
  shows "caseless_prefix (str ''<sup>'') s"
    and "caseless_prefix (str ''Until'') (drop 5 s) \<or> caseless_prefix (str ''Since'') (drop 5 s)"
    and "caseless_prefix (str '': '') (drop 10 s)"
    and "version_length (drop 12 s) = Some (length v)"
    and "p = take 5 (drop 5 s)" and "v = take (length v) (drop 12 s)"
    and "18 + length v \<le> length s"
proof -
  from assms obtain n where c: "caseless_prefix (str ''<sup>'') s"
      "caseless_prefix (str ''Until'') (drop 5 s) \<or> caseless_prefix (str ''Since'') (drop 5 s)"
      "caseless_prefix (str '': '') (drop 10 s)"
    and n: "version_length (drop 12 s) = Some n"
    and pv: "p = take 5 (drop 5 s)" "v = take n (drop 12 s)"
    by (auto simp: badge_at_def split: if_splits)
  from version_length_bound [OF n] have b: "n + 18 \<le> length s"
    by simp
  with pv have len: "length v = n"
    by simp
  from c show "caseless_prefix (str ''<sup>'') s"
    and "caseless_prefix (str ''Until'') (drop 5 s) \<or> caseless_prefix (str ''Since'') (drop 5 s)"
    and "caseless_prefix (str '': '') (drop 10 s)"
    by simp_all
  from n len show "version_length (drop 12 s) = Some (length v)" by simp
  from pv len show "p = take 5 (drop 5 s)" and "v = take (length v) (drop 12 s)" by simp_all
  from b len show "18 + length v \<le> length s" by simp
qed

lemma badge_at_SomeI:
  assumes "caseless_prefix (str ''<sup>'') s"
    and "caseless_prefix (str ''Until'') (drop 5 s) \<or> caseless_prefix (str ''Since'') (drop 5 s)"
    and "caseless_prefix (str '': '') (drop 10 s)"
    and "version_length (drop 12 s) = Some n"
  shows "badge_at s = Some (take 5 (drop 5 s), take n (drop 12 s))"
  using assms by (simp add: badge_at_def)

lemma badge_at_append:
  assumes "badge_at a = Some (p, v)"
  shows "badge_at (a @ b) = Some (p, v)"
proof -
  note d = badge_at_SomeD [OF assms]
  from d(7) have len: "18 \<le> length a" by simp
  have "badge_at (a @ b) = Some (take 5 (drop 5 (a @ b)), take (length v) (drop 12 (a @ b)))"
  proof (rule badge_at_SomeI)
    from d(1) show "caseless_prefix (str ''<sup>'') (a @ b)"
      by (rule cp_append)
    from d(2) len
    show "caseless_prefix (str ''Until'') (drop 5 (a @ b)) \<or> caseless_prefix (str ''Since'') (drop 5 (a @ b))"
      by (auto simp: cp_append)
    from d(3) len show "caseless_prefix (str '': '') (drop 10 (a @ b))"
      by (simp add: cp_append)
    from d(4) len show "version_length (drop 12 (a @ b)) = Some (length v)"
      by (simp add: vl_append)
  qed
  also from d(7) have "take 5 (drop 5 (a @ b)) = take 5 (drop 5 a)"
    by simp
  also from d(7) have "take (length v) (drop 12 (a @ b)) = take (length v) (drop 12 a)"
    by simp
  finally show ?thesis
    using d(5,6) by simp
qed

lemma badge_at_restrict:
  assumes "badge_at (a @ b) = Some (p, v)" and "18 + length v \<le> length a"
  shows "badge_at a = Some (p, v)"
proof -
  note d = badge_at_SomeD [OF assms(1)]
  from assms(2) have len: "18 \<le> length a" by simp
  have "badge_at a = Some (take 5 (drop 5 a), take (length v) (drop 12 a))"
  proof (rule badge_at_SomeI)
    from d(1) len show "caseless_prefix (str ''<sup>'') a"
      by (auto intro: cp_restrict simp: lit_lengths)
    from d(2) len
    show "caseless_prefix (str ''Until'') (drop 5 a) \<or> caseless_prefix (str ''Since'') (drop 5 a)"
      by (auto intro!: cp_restrict [of _ "drop 5 a" b] simp: lit_lengths)
    from d(3) len show "caseless_prefix (str '': '') (drop 10 a)"
      by (auto intro!: cp_restrict [of _ "drop 10 a" b] simp: lit_lengths)
    from d(4) assms(2) show "version_length (drop 12 a) = Some (length v)"
      by (auto intro!: vl_restrict [of "drop 12 a" b])
  qed
  moreover from assms(2) d(5) have "p = take 5 (drop 5 a)"
    by simp
  moreover from assms(2) d(6) have "v = take (length v) (drop 12 a)"
    by simp
  ultimately show ?thesis
    by simp
qed

lemma render_split:
  assumes "\<And>i. i < length a \<Longrightarrow> badge_at (drop i a @ b) = badge_at (drop i a)"
  shows "render_badges (a @ b) = render_badges a @ render_badges b"
  using assms
proof (induction a rule: render_badges.induct)
  case 1
  show ?case by simp
next
  case (2 x xs)
  from "2.prems" [of 0] have here: "badge_at ((x # xs) @ b) = badge_at (x # xs)"
    by simp
  have later: "badge_at (drop i (drop k (x # xs)) @ b) = badge_at (drop i (drop k (x # xs)))"
    if "i < length (drop k (x # xs))" for i k
    using that "2.prems" [of "i + k"] by (simp add: add.commute)
  show ?case
  proof (cases "badge_at (x # xs)")
    case None
    from later [of _ 1] have "render_badges (xs @ b) = render_badges xs @ render_badges b"
      by (intro "2.IH"(1) [OF None]) simp
    with None here show ?thesis
      by simp
  next
    case (Some pv)
    obtain p v where pv: "pv = (p, v)"
      by (cases pv)
    from Some pv have at: "badge_at (x # xs) = Some (p, v)"
      by simp
    have "render_badges (drop (18 + length v) (x # xs) @ b)
        = render_badges (drop (18 + length v) (x # xs)) @ render_badges b"
      by (rule "2.IH"(2) [OF Some pv [symmetric]]) (rule later)
    moreover from badge_at_SomeD(7) [OF at]
    have "drop (18 + length v) ((x # xs) @ b) = drop (18 + length v) (x # xs) @ b"
      by (simp only: drop_append) simp
    moreover have "render_badges ((x # xs) @ b)
        = badge p v @ render_badges (drop (18 + length v) ((x # xs) @ b))"
      using here at by (simp del: drop_Suc_Cons)
    moreover have "render_badges (x # xs)
        = badge p v @ render_badges (drop (18 + length v) (x # xs))"
      using at by (simp del: drop_Suc_Cons)
    ultimately show ?thesis
      by simp
  qed
qed

lemma cp_nth:
  "caseless_prefix w s \<Longrightarrow> j < length w \<Longrightarrow> caseless (w ! j) (s ! j)"
proof (induction w s arbitrary: j rule: caseless_prefix.induct)
  case (3 c cs x xs)
  then show ?case by (cases j) auto
qed auto

lemma cp_no_char:
  "caseless_prefix w t \<Longrightarrow> \<forall>k\<in>set w. \<not> caseless k c \<Longrightarrow> c \<notin> set (take (length w) t)"
  by (induction w t rule: caseless_prefix.induct) auto

lemma caseless_lt: "caseless 60 x \<longleftrightarrow> x = 60"
  by (auto simp: caseless_def unicode_tolower_def ignorecase_fixes_def split: if_splits)

lemma close_straddle:
  assumes "caseless_prefix (str ''</sup>'') (u @ 60 # r)" and "u \<noteq> []"
  shows "caseless_prefix (str ''</sup>'') u"
proof -
  from assms(2) obtain y u' where u: "u = y # u'"
    by (cases u) auto
  have tl: "\<forall>k\<in>set (str ''/sup>''). \<not> caseless k 60"
    by (simp add: eval_text)
  have split: "str ''</sup>'' = 60 # str ''/sup>''"
    by (simp add: str_def)
  from assms(1) u have "caseless 60 y" "caseless_prefix (str ''/sup>'') (u' @ 60 # r)"
    by (simp_all add: split)
  with cp_no_straddle [OF _ tl] have "caseless 60 y" "caseless_prefix (str ''/sup>'') u'"
    by blast+
  with u show ?thesis
    by (simp add: split)
qed

lemma version_length_exact:
  assumes "newline \<notin> set v" and "\<not> caseless_infix (str ''</sup>'') v"
    and "caseless_prefix (str ''</sup>'') c"
  shows "version_length (v @ c) = Some (length v)"
  using assms(1,2)
proof (induction v)
  case Nil
  from assms(3) show ?case
    by (cases c) (simp_all add: str_def)
next
  case (Cons x v)
  from assms(3) obtain c' where c: "c = 60 # c'"
    by (cases c) (auto simp: str_def caseless_lt)
  have "\<not> caseless_prefix (str ''</sup>'') ((x # v) @ c)"
  proof
    assume "caseless_prefix (str ''</sup>'') ((x # v) @ c)"
    with c have "caseless_prefix (str ''</sup>'') (x # v)"
      by (intro close_straddle [of "x # v" c']) simp_all
    with Cons.prems show False by simp
  qed
  with Cons show ?case
    by simp
qed


lemma render_single_annotation:
  assumes o: "caseless_eq (str ''<sup>'') opn"
    and p: "caseless_eq (str ''Until'') p \<or> caseless_eq (str ''Since'') p"
    and c: "caseless_eq (str ''</sup>'') cls"
    and v: "newline \<notin> set v" "\<not> caseless_infix (str ''</sup>'') v"
  shows "render_badges (opn @ p @ str '': '' @ v @ cls) = badge p v"
proof -
  let ?s = "opn @ p @ str '': '' @ v @ cls"
  from o have lo: "length opn = 5" and co: "caseless_prefix (str ''<sup>'') opn"
    by (simp_all add: caseless_eq_def lit_lengths)
  from p have lp: "length p = 5"
    and cp: "caseless_prefix (str ''Until'') p \<or> caseless_prefix (str ''Since'') p"
    by (auto simp: caseless_eq_def lit_lengths)
  from c have lc: "length cls = 6" and cc: "caseless_prefix (str ''</sup>'') cls"
    by (simp_all add: caseless_eq_def lit_lengths)
  have d5: "drop 5 ?s = p @ str '': '' @ v @ cls"
    using lo by simp
  have d10: "drop 10 ?s = str '': '' @ v @ cls"
    using lo lp by simp
  have d12: "drop 12 ?s = v @ cls"
    using lo lp by (simp add: lit_lengths)
  have colon: "caseless_prefix (str '': '') (str '': '' @ v @ cls)"
    by (simp add: eval_text)
  have "badge_at ?s = Some (take 5 (drop 5 ?s), take (length v) (drop 12 ?s))"
  proof (rule badge_at_SomeI)
    from co show "caseless_prefix (str ''<sup>'') ?s"
      by (rule cp_append)
    from cp show "caseless_prefix (str ''Until'') (drop 5 ?s)
        \<or> caseless_prefix (str ''Since'') (drop 5 ?s)"
      unfolding d5 by (auto intro: cp_append)
    from colon show "caseless_prefix (str '': '') (drop 10 ?s)"
      unfolding d10 .
    from version_length_exact [OF v cc]
    show "version_length (drop 12 ?s) = Some (length v)"
      unfolding d12 .
  qed
  then have at: "badge_at ?s = Some (p, v)"
    unfolding d5 d12 using lp by simp
  from lo obtain x xs where s: "?s = x # xs"
    by (cases opn) auto
  have "drop (18 + length v) ?s = []"
    using lo lp lc by (simp add: lit_lengths)
  with at show ?thesis
    unfolding s by (simp del: drop_Suc_Cons)
qed

section \<open>BadgeRenderer\<close>

lemmas eval_badge =
  badge_at_def badge_def unlinked_badge_def linked_badge_def eval_text

lemma shortcodes_render:
  "shortcodes_on_page_markdown markdown page config files = Inr (render_badges markdown)"
  by (simp add: shortcodes_on_page_markdown_def re_sub_def badge_sub_loop)

lemma render_no_badge: "\<not> has_badge s \<Longrightarrow> render_badges s = s"
  by (induction s) (auto split: option.splits)

text \<open>
  C1: BadgeRenderer replaces every match of the badge pattern, taken from the left: by the
  unlinked badge when the captured version is exactly \<open>next release\<close>, by the linked
  badge, with the version verbatim in the address, for every other version.
\<close>

theorem shortcodes_replaces_every_badge:
  "shortcodes_on_page_markdown markdown page config files = Inr (render_badges markdown)"
  by (rule shortcodes_render)

theorem shortcodes_replaces_every_badge_witness:
  "shortcodes_on_page_markdown (str ''<sup>Since: 0.1.0</sup>'') () () () =
     Inr (str ''<span class=\"badge\">[Since: 0.1.0](https://github.com/YaLTeR/niri/releases/tag/v0.1.0)</span>'')
   \<and> shortcodes_on_page_markdown (str ''<sup>Until: next release</sup>'') () () () =
     Inr (str ''<span class=\"badge\">Until: next release</span>'')"
  using shortcodes_replaces_every_badge [of "str ''<sup>Since: 0.1.0</sup>''" "()" "()" "()"]
    shortcodes_replaces_every_badge [of "str ''<sup>Until: next release</sup>''" "()" "()" "()"]
  by (simp add: eval_badge)

text \<open>
  C6: on a string with no occurrence of the badge pattern, BadgeRenderer returns the
  string itself.
\<close>

theorem shortcodes_noop:
  "\<not> has_badge s \<Longrightarrow> shortcodes_on_page_markdown s page config files = Inr s"
  by (simp add: shortcodes_render render_no_badge)

theorem shortcodes_noop_witness:
  "\<not> has_badge (str ''<sup>2</sup> Since: x'')
   \<and> shortcodes_on_page_markdown (str ''<sup>2</sup> Since: x'') () () ()
       = Inr (str ''<sup>2</sup> Since: x'')"
proof -
  have h: "\<not> has_badge (str ''<sup>2</sup> Since: x'')"
    by (simp add: eval_badge)
  from h shortcodes_noop [OF h, of "()" "()" "()"] show ?thesis
    by simp
qed

text \<open>
  C9: the badge pattern is matched up to case and the captured groups are interpolated as
  written. An annotation whose tags and preposition are written in any casing, with a
  version that holds no newline and no closing tag, is replaced by the badge of the
  preposition and version as written: \<open><sup>since: 1.0</sup>\<close> gives a badge reading
  \<open>since: 1.0\<close> and \<open><SUP>UNTIL: 1.0</SUP>\<close> one reading \<open>UNTIL: 1.0\<close>.
\<close>

theorem shortcodes_keeps_casing:
  assumes "caseless_eq (str ''<sup>'') opn"
    and "caseless_eq (str ''Until'') p \<or> caseless_eq (str ''Since'') p"
    and "caseless_eq (str ''</sup>'') cls"
    and "newline \<notin> set v" and "\<not> caseless_infix (str ''</sup>'') v"
  shows "shortcodes_on_page_markdown (opn @ p @ str '': '' @ v @ cls) page config files
     = Inr (badge p v)"
  using assms by (simp add: shortcodes_render render_single_annotation)

theorem shortcodes_keeps_casing_witness:
  "shortcodes_on_page_markdown (str ''<sup>since: 1.0</sup>'') () () () =
     Inr (str ''<span class=\"badge\">[since: 1.0](https://github.com/YaLTeR/niri/releases/tag/v1.0)</span>'')
   \<and> shortcodes_on_page_markdown (str ''<SUP>UNTIL: 1.0</SUP>'') () () () =
     Inr (str ''<span class=\"badge\">[UNTIL: 1.0](https://github.com/YaLTeR/niri/releases/tag/v1.0)</span>'')"
proof -
  have v: "newline \<notin> set (str ''1.0'')" "\<not> caseless_infix (str ''</sup>'') (str ''1.0'')"
    by (simp_all add: eval_text)
  have lower: "caseless_eq (str ''<sup>'') (str ''<sup>'')"
    "caseless_eq (str ''Until'') (str ''since'') \<or> caseless_eq (str ''Since'') (str ''since'')"
    "caseless_eq (str ''</sup>'') (str ''</sup>'')"
    by (simp_all add: caseless_eq_def eval_text)
  have upper: "caseless_eq (str ''<sup>'') (str ''<SUP>'')"
    "caseless_eq (str ''Until'') (str ''UNTIL'') \<or> caseless_eq (str ''Since'') (str ''UNTIL'')"
    "caseless_eq (str ''</sup>'') (str ''</SUP>'')"
    by (simp_all add: caseless_eq_def eval_text)
  from shortcodes_keeps_casing [OF lower v, of "()" "()" "()"]
    shortcodes_keeps_casing [OF upper v, of "()" "()" "()"]
  show ?thesis
    by (simp add: badge_def linked_badge_def str_def)
qed

section \<open>Both hooks\<close>

text \<open>
  C7: the text either hook returns depends on the markdown argument only; any two
  assignments of \<open>page\<close>, \<open>config\<close> and \<open>files\<close> give the same output.
\<close>

theorem hooks_ignore_context:
  "remove_must_fail_on_page_markdown markdown page1 config1 files1
     = remove_must_fail_on_page_markdown markdown page2 config2 files2
   \<and> shortcodes_on_page_markdown markdown page1 config1 files1
     = shortcodes_on_page_markdown markdown page2 config2 files2"
  by (simp add: remove_must_fail_on_page_markdown_def shortcodes_on_page_markdown_def)

theorem hooks_ignore_context_witness:
  "remove_must_fail_on_page_markdown (str ''a,must-fail'') (1::nat) True ''x''
     = remove_must_fail_on_page_markdown (str ''a,must-fail'') (2::nat) False ''y''
   \<and> shortcodes_on_page_markdown (str ''a,must-fail'') (1::nat) True ''x''
     = shortcodes_on_page_markdown (str ''a,must-fail'') (2::nat) False ''y''"
  by (rule hooks_ignore_context)

text \<open>
  C8: both hooks are total on strings: every input, the empty string and a string
  without a match among them, has an output string, and no input reaches the exception
  branch of the callback or of the tuple indexing.
\<close>

theorem hooks_total:
  "(\<exists>out. remove_must_fail_on_page_markdown markdown page config files = Inr out)
   \<and> (\<exists>out. shortcodes_on_page_markdown markdown page config files = Inr out)"
  by (simp add: remove_must_fail_strip shortcodes_render)

theorem hooks_total_witness:
  "(\<exists>out. remove_must_fail_on_page_markdown (str '''') () () () = Inr out)
   \<and> (\<exists>out. shortcodes_on_page_markdown (str '''') () () () = Inr out)"
  by (rule hooks_total)

section \<open>Annotations and line boundaries\<close>

lemma badge_at_cut:
  assumes "\<And>p v. badge_at (a @ b) = Some (p, v) \<Longrightarrow> 18 + length v \<le> length a"
  shows "badge_at (a @ b) = badge_at a"
proof (cases "badge_at (a @ b)")
  case None
  show ?thesis
  proof (cases "badge_at a")
    case (Some pv)
    then obtain p v where "badge_at a = Some (p, v)"
      by (cases pv) auto
    from badge_at_append [OF this, of b] None show ?thesis
      by simp
  qed (simp add: None)
next
  case (Some pv)
  then obtain p v where at: "badge_at (a @ b) = Some (p, v)"
    by (cases pv) auto
  from badge_at_restrict [OF at assms [OF at]] at show ?thesis
    by simp
qed

lemma badge_at_close:
  assumes "badge_at s = Some (p, v)"
  shows "caseless_prefix (str ''</sup>'') (drop (12 + length v) s)"
  using vl_close [OF badge_at_SomeD(4) [OF assms]] by (simp add: add.commute)

lemma badge_at_no_newline:
  assumes "badge_at s = Some (p, v)"
  shows "newline \<notin> set (take (18 + length v) s)"
proof -
  note d = badge_at_SomeD [OF assms]
  have nl: "\<forall>k\<in>set (str w). \<not> caseless k newline"
    if "w \<in> {''<sup>'', ''Until'', ''Since'', '': '', ''</sup>''}" for w
    using that by (auto simp: eval_text)
  have parts: "take (18 + length v) s =
      take 5 s @ take 5 (drop 5 s) @ take 2 (drop 10 s) @ take (length v) (drop 12 s)
        @ take 6 (drop (12 + length v) s)"
  proof -
    have e: "18 + length v = 5 + (5 + (2 + (length v + 6)))"
      by simp
    show ?thesis
      by (simp only: e take_add) (simp add: add.commute)
  qed
  have "newline \<notin> set (take 5 s)"
    using cp_no_char [OF d(1) nl] by (simp add: lit_lengths)
  moreover have "newline \<notin> set (take 5 (drop 5 s))"
    using d(2) cp_no_char [OF _ nl, of "''Until''" "drop 5 s"]
      cp_no_char [OF _ nl, of "''Since''" "drop 5 s"]
    by (auto simp: lit_lengths)
  moreover have "newline \<notin> set (take 2 (drop 10 s))"
    using cp_no_char [OF d(3) nl] by (simp add: lit_lengths)
  moreover have "newline \<notin> set (take (length v) (drop 12 s))"
    using vl_close [OF d(4)] by simp
  moreover have "newline \<notin> set (take 6 (drop (12 + length v) s))"
    using cp_no_char [OF badge_at_close [OF assms] nl] by (simp add: lit_lengths)
  ultimately show ?thesis
    unfolding parts by simp
qed

lemma badge_at_line: "badge_at (a @ newline # b) = badge_at a"
proof (rule badge_at_cut)
  fix p v
  assume at: "badge_at (a @ newline # b) = Some (p, v)"
  show "18 + length v \<le> length a"
  proof (rule ccontr)
    assume "\<not> 18 + length v \<le> length a"
    then have "newline \<in> set (take (18 + length v) (a @ newline # b))"
      by (simp add: take_Cons')
    with badge_at_no_newline [OF at] show False
      by simp
  qed
qed

lemma badge_at_newline: "badge_at (newline # b) = None"
  by (simp add: badge_at_def eval_text)

lemma render_line:
  "render_badges (a @ newline # b) = render_badges a @ newline # render_badges b"
proof -
  have "render_badges (a @ newline # b) = render_badges a @ render_badges (newline # b)"
    by (rule render_split) (rule badge_at_line)
  then show ?thesis
    by (simp add: badge_at_newline)
qed


lemma has_badge_drop:
  "has_badge s \<Longrightarrow> \<exists>i p v. badge_at (drop i s) = Some (p, v)"
proof (induction s)
  case Nil
  then show ?case by simp
next
  case (Cons x xs)
  from Cons.prems consider "badge_at (x # xs) \<noteq> None" | "has_badge xs"
    by auto
  then show ?case
  proof cases
    case 1
    then obtain p v where "badge_at (drop 0 (x # xs)) = Some (p, v)"
      by auto
    then show ?thesis by blast
  next
    case 2
    with Cons.IH obtain i p v where "badge_at (drop (Suc i) (x # xs)) = Some (p, v)"
      by auto
    then show ?thesis by blast
  qed
qed

lemma caseless_slash: "caseless 47 x \<longleftrightarrow> x = 47"
  by (auto simp: caseless_def unicode_tolower_def ignorecase_fixes_def split: if_splits)

lemma opener_chars:
  assumes "caseless_eq (str ''<sup>Until:'') opn \<or> caseless_eq (str ''<sup>Since:'') opn"
  shows "length opn = 11" and "opn ! 0 = 60" and "opn ! 1 \<noteq> 47"
    and "\<And>j. 1 \<le> j \<Longrightarrow> j < 11 \<Longrightarrow> opn ! j \<noteq> 60"
proof -
  from assms obtain w where w: "w = ''<sup>Until:'' \<or> w = ''<sup>Since:''"
    and eq: "caseless_eq (str w) opn"
    by blast
  from w have lw: "length (str w) = 11"
    by (auto simp: str_def)
  with eq show len: "length opn = 11"
    by (simp add: caseless_eq_def)
  from eq have cp: "caseless_prefix (str w) opn"
    by (simp add: caseless_eq_def)
  have nth: "caseless (str w ! j) (opn ! j)" if "j < 11" for j
    using cp_nth [OF cp] that lw by simp
  from w have w0: "str w ! 0 = 60" and w1: "str w ! 1 = 115"
    by (auto simp: str_def)
  from nth [of 0] w0 show "opn ! 0 = 60"
    by (simp add: caseless_lt)
  from nth [of 1] w1 show "opn ! 1 \<noteq> 47"
    by (auto simp: eval_text split: if_splits)
  fix j :: nat
  assume j: "1 \<le> j" "j < 11"
  from w have "\<forall>k\<in>set (tl (str w)). \<not> caseless k 60"
    by (auto simp: eval_text)
  moreover from j lw have "str w ! j \<in> set (tl (str w))"
    by (cases "str w") (auto simp: nth_Cons' in_set_conv_nth intro: exI [of _ "j - 1"])
  ultimately have "\<not> caseless (str w ! j) 60"
    by blast
  with nth [OF j(2)] show "opn ! j \<noteq> 60"
    by auto
qed

lemma close_outside_opener:
  assumes opn: "caseless_eq (str ''<sup>Until:'') opn \<or> caseless_eq (str ''<sup>Since:'') opn"
    and t: "\<not> caseless_infix (str ''</sup>'') t"
    and hit: "caseless_prefix (str ''</sup>'') (drop i (a @ opn @ t))"
  shows "i + 6 \<le> length a"
proof (cases "i < length a")
  case True
  note oc = opener_chars [OF opn]
  from oc(1,2) obtain o' where o': "opn = 60 # o'"
    by (cases opn) auto
  from True have "drop i (a @ opn @ t) = drop i a @ 60 # (o' @ t)" "drop i a \<noteq> []"
    by (simp_all add: o')
  with hit have "caseless_prefix (str ''</sup>'') (drop i a)"
    by (auto intro: close_straddle)
  from cp_length [OF this] show ?thesis
    by (simp add: lit_lengths)
next
  case False
  note oc = opener_chars [OF opn]
  define j where "j = i - length a"
  from False have d: "drop i (a @ opn @ t) = drop j (opn @ t)"
    by (simp add: j_def)
  have False
  proof -
    consider "j = 0" | "1 \<le> j" "j < 11" | "11 \<le> j"
      by linarith
    then show False
    proof cases
      case 1
      with hit d have "caseless_prefix (str ''</sup>'') (opn @ t)"
        by simp
      from cp_nth [OF this, of 1] oc(1) have "caseless 47 (opn ! 1)"
        by (simp add: str_def nth_append)
      with oc(3) show False
        by (simp add: caseless_slash)
    next
      case 2
      with oc(1) have "drop j (opn @ t) = opn ! j # drop (Suc j) (opn @ t)"
        by (simp add: Cons_nth_drop_Suc [symmetric] nth_append)
      with hit d have "caseless 60 (opn ! j)"
        by (simp add: str_def)
      with oc(4) [OF 2] show False
        by (simp add: caseless_lt)
    next
      case 3
      with oc(1) have dt: "drop j (opn @ t) = drop (j - 11) t"
        by simp
      show False
      proof (cases "j - 11 \<le> length t")
        case True
        with hit d dt t show False
          by (auto simp: infix_iff_drop)
      next
        case False
        with hit d dt show False
          by (simp add: str_def)
      qed
    qed
  qed
  then show ?thesis ..
qed

lemma render_unclosed_opener:
  assumes opn: "caseless_eq (str ''<sup>Until:'') opn \<or> caseless_eq (str ''<sup>Since:'') opn"
    and t: "\<not> caseless_infix (str ''</sup>'') t"
  shows "render_badges (pre @ opn @ t) = render_badges pre @ opn @ t"
proof -
  have cut: "badge_at (a @ opn @ t) = badge_at a" for a
  proof (rule badge_at_cut)
    fix p v
    assume "badge_at (a @ opn @ t) = Some (p, v)"
    from close_outside_opener [OF opn t badge_at_close [OF this]]
    show "18 + length v \<le> length a"
      by simp
  qed
  have "\<not> has_badge (opn @ t)"
  proof
    assume "has_badge (opn @ t)"
    from has_badge_drop [OF this] obtain i p v where "badge_at (drop i (opn @ t)) = Some (p, v)"
      by blast
    from badge_at_close [OF this]
    have "caseless_prefix (str ''</sup>'') (drop (12 + length v + i) ([] @ opn @ t))"
      by (simp only: drop_drop append_Nil)
    from close_outside_opener [OF opn t this] show False
      by simp
  qed
  then have "render_badges (opn @ t) = opn @ t"
    by (rule render_no_badge)
  moreover have "render_badges (pre @ opn @ t) = render_badges pre @ render_badges (opn @ t)"
    by (rule render_split) (rule cut)
  ultimately show ?thesis
    by simp
qed

text \<open>
  C10: the version capture does not cross a line boundary. Where \<open><sup>Until:\<close> or
  \<open><sup>Since:\<close>, in any casing, is followed by a newline before any closing tag,
  BadgeRenderer leaves the opening and the text up to that newline as they are, whatever
  comes before and after: the output is the rendered text before, the opening and the
  text up to the newline unchanged, and the rendered text after.
\<close>

theorem shortcodes_leaves_unclosed_opener:
  assumes "caseless_eq (str ''<sup>Until:'') opn \<or> caseless_eq (str ''<sup>Since:'') opn"
    and "\<not> caseless_infix (str ''</sup>'') t"
  shows "\<exists>a b. shortcodes_on_page_markdown pre page config files = Inr a
    \<and> shortcodes_on_page_markdown rest page config files = Inr b
    \<and> shortcodes_on_page_markdown (pre @ opn @ t @ newline # rest) page config files
        = Inr (a @ opn @ t @ newline # b)"
proof -
  have "render_badges (pre @ opn @ t @ newline # rest)
      = render_badges (pre @ opn @ t) @ newline # render_badges rest"
    using render_line [of "pre @ opn @ t" rest] by simp
  with render_unclosed_opener [OF assms, of pre] show ?thesis
    by (simp add: shortcodes_render)
qed

theorem shortcodes_leaves_unclosed_opener_witness:
  "(caseless_eq (str ''<sup>Until:'') (str ''<sup>Since:'')
      \<or> caseless_eq (str ''<sup>Since:'') (str ''<sup>Since:''))
   \<and> \<not> caseless_infix (str ''</sup>'') (str '' 1'')
   \<and> shortcodes_on_page_markdown
        (str ''x'' @ str ''<sup>Since:'' @ str '' 1'' @ newline # str ''2</sup>'') () () ()
       = Inr (str ''x'' @ str ''<sup>Since:'' @ str '' 1'' @ newline # str ''2</sup>'')"
proof -
  have h: "caseless_eq (str ''<sup>Until:'') (str ''<sup>Since:'')
      \<or> caseless_eq (str ''<sup>Since:'') (str ''<sup>Since:'')"
    by (simp add: caseless_eq_def eval_text)
  have n: "\<not> caseless_infix (str ''</sup>'') (str '' 1'')"
    by (simp add: eval_text)
  have pre: "shortcodes_on_page_markdown (str ''x'') () () () = Inr (str ''x'')"
    by (simp add: shortcodes_render) (simp add: eval_badge)
  have rest: "shortcodes_on_page_markdown (str ''2</sup>'') () () () = Inr (str ''2</sup>'')"
    by (simp add: shortcodes_render) (simp add: eval_badge)
  from shortcodes_leaves_unclosed_opener
    [OF h n, where pre = "str ''x''" and rest = "str ''2</sup>''" and page = "()"
      and config = "()" and files = "()"]
    pre rest h n
  show ?thesis
    by auto
qed

section \<open>The two hooks in sequence\<close>

lemma infix_drop_any: "caseless_prefix w (drop i s) \<Longrightarrow> caseless_infix w s"
proof (cases "i \<le> length s")
  case True
  assume "caseless_prefix w (drop i s)"
  with True show ?thesis by (auto simp: infix_iff_drop)
next
  case False
  assume "caseless_prefix w (drop i s)"
  with False have "caseless_prefix w (drop (length s) s)" by simp
  then show ?thesis unfolding infix_iff_drop by blast
qed

lemma cp_of_take: "caseless_prefix w (take n s) \<Longrightarrow> caseless_prefix w s"
  using cp_append [of w "take n s" "drop n s"] by simp

lemma infix_take_drop:
  assumes "caseless_infix w (take n (drop k s))"
  shows "caseless_infix w s"
proof -
  from assms obtain i where "caseless_prefix w (drop i (take n (drop k s)))"
    by (auto simp: infix_iff_drop)
  then have "caseless_prefix w (take (n - i) (drop (i + k) s))"
    by (simp add: drop_take)
  then have "caseless_prefix w (drop (i + k) s)"
    by (rule cp_of_take)
  then show ?thesis
    by (rule infix_drop_any)
qed

lemma infix_drop: "caseless_infix w (drop k s) \<Longrightarrow> caseless_infix w s"
  using infix_take_drop [of w "length s" k s] by simp

lemma caseless_comma: "caseless 44 x \<longleftrightarrow> x = 44"
  by (auto simp: caseless_def unicode_tolower_def ignorecase_fixes_def split: if_splits)

lemma must_fail_cons: "must_fail = 44 # str ''must-fail''"
  by (simp add: must_fail_def str_def)

lemma mf_skip: "x \<noteq> 44 \<Longrightarrow> caseless_infix must_fail (x # z) = caseless_infix must_fail z"
  by (simp add: must_fail_cons caseless_comma)

lemma mf_skip_list:
  "44 \<notin> set u \<Longrightarrow> caseless_infix must_fail (u @ z) = caseless_infix must_fail z"
  by (induction u) (simp_all add: mf_skip del: caseless_infix.simps)

lemma mf_empty: "\<not> caseless_infix must_fail []"
  by (simp add: must_fail_cons)

lemma mf_sep:
  assumes "\<forall>k\<in>set must_fail. \<not> caseless k c"
  shows "caseless_infix must_fail (u @ c # z)
     = (caseless_infix must_fail u \<or> caseless_infix must_fail z)"
proof (induction u)
  case Nil
  from assms have "c \<noteq> 44"
    by (auto simp: must_fail_cons caseless_comma)
  then show ?case
    by (simp add: mf_skip mf_empty del: caseless_infix.simps)
next
  case (Cons x u)
  have "caseless_prefix must_fail ((x # u) @ c # z) = caseless_prefix must_fail (x # u)"
    using cp_no_straddle [OF _ assms, of "x # u" z] cp_append [of must_fail "x # u" "c # z"]
    by blast
  with Cons show ?case
    by auto
qed

lemma mf_seps:
  "\<forall>k\<in>set must_fail. \<not> caseless k 60" "\<forall>k\<in>set must_fail. \<not> caseless k 93"
  "\<forall>k\<in>set must_fail. \<not> caseless k 41" "\<forall>k\<in>set must_fail. \<not> caseless k newline"
  by (simp_all add: eval_text)

lemma badge_marker:
  assumes "44 \<notin> set p"
  shows "caseless_infix must_fail (badge p v @ r)
     = (caseless_infix must_fail v \<or> caseless_infix must_fail r)"
proof -
  note sep = mf_sep [OF mf_seps(1)] mf_sep [OF mf_seps(2)] mf_sep [OF mf_seps(3)]
  have un: "caseless_infix must_fail (unlinked_badge p v @ r)
      = (caseless_infix must_fail v \<or> caseless_infix must_fail r)"
    using assms
    by (simp add: unlinked_badge_def str_def mf_skip mf_skip_list sep mf_empty
        del: caseless_infix.simps)
  have li: "caseless_infix must_fail (linked_badge p v @ r)
      = (caseless_infix must_fail v \<or> caseless_infix must_fail r)"
    using assms
    by (simp add: linked_badge_def str_def mf_skip mf_skip_list sep mf_empty
        del: caseless_infix.simps)
  have "badge p v = unlinked_badge p v \<or> badge p v = linked_badge p v"
    by (simp add: badge_def)
  with un li show ?thesis
    by metis
qed


lemma badge_head: "\<exists>r. badge p v = 60 # r"
  by (simp add: badge_def unlinked_badge_def linked_badge_def str_def)

lemma cp_render:
  assumes "\<forall>k\<in>set w. \<not> caseless k 60"
  shows "caseless_prefix w (render_badges t) \<Longrightarrow> caseless_prefix w t"
  using assms
proof (induction w arbitrary: t)
  case Nil
  show ?case by simp
next
  case (Cons k w)
  show ?case
  proof (cases t)
    case Nil
    with Cons.prems show ?thesis by simp
  next
    case (Cons y ys)
    show ?thesis
    proof (cases "badge_at (y # ys)")
      case None
      with Cons.prems Cons.IH [of ys] \<open>t = y # ys\<close> show ?thesis
        by simp
    next
      case (Some pv)
      obtain p v where pv: "pv = (p, v)"
        by (cases pv)
      from badge_head [of p v] obtain r where "badge p v = 60 # r"
        by blast
      with Some pv Cons.prems \<open>t = y # ys\<close> show ?thesis
        by (simp del: drop_Suc_Cons)
    qed
  qed
qed

lemma preposition_no_comma:
  assumes "badge_at s = Some (p, v)"
  shows "44 \<notin> set p"
proof -
  note d = badge_at_SomeD [OF assms]
  have c: "\<forall>k\<in>set (str w). \<not> caseless k 44" if "w \<in> {''Until'', ''Since''}" for w
    using that by (auto simp: eval_text)
  from d(2) cp_no_char [OF _ c, of "''Until''" "drop 5 s"]
    cp_no_char [OF _ c, of "''Since''" "drop 5 s"]
  have "44 \<notin> set (take 5 (drop 5 s))"
    by (auto simp: lit_lengths)
  with d(5) show ?thesis
    by simp
qed

lemma render_keeps_marker_free:
  "\<not> caseless_infix must_fail l \<Longrightarrow> \<not> caseless_infix must_fail (render_badges l)"
proof (induction l rule: render_badges.induct)
  case 1
  then show ?case by simp
next
  case (2 x xs)
  show ?case
  proof (cases "badge_at (x # xs)")
    case None
    from "2.prems" have tail: "\<not> caseless_infix must_fail xs"
      and head: "\<not> caseless_prefix must_fail (x # xs)"
      by simp_all
    from cp_render [OF mf_seps(1), of "x # xs"] head
    have "\<not> caseless_prefix must_fail (render_badges (x # xs))"
      by blast
    with None "2.IH"(1) [OF None tail] show ?thesis
      by simp
  next
    case (Some pv)
    obtain p v where pv: "pv = (p, v)"
      by (cases pv)
    with Some have at: "badge_at (x # xs) = Some (p, v)"
      by simp
    note d = badge_at_SomeD [OF at]
    from "2.prems" infix_drop [of must_fail "18 + length v" "x # xs"]
    have "\<not> caseless_infix must_fail (drop (18 + length v) (x # xs))"
      by blast
    from "2.IH"(2) [OF Some pv [symmetric] this]
    have rest: "\<not> caseless_infix must_fail (render_badges (drop (18 + length v) (x # xs)))" .
    from "2.prems" d(6) infix_take_drop [of must_fail "length v" 12 "x # xs"]
    have v: "\<not> caseless_infix must_fail v"
      by auto
    have "render_badges (x # xs) = badge p v @ render_badges (drop (18 + length v) (x # xs))"
      using at by (simp del: drop_Suc_Cons)
    with badge_marker [OF preposition_no_comma [OF at], of v] rest v show ?thesis
      by simp
  qed
qed

lemma no_lt_no_badge: "60 \<notin> set s \<Longrightarrow> \<not> has_badge s"
proof (induction s)
  case Nil
  show ?case by simp
next
  case (Cons x xs)
  have "badge_at (x # xs) = None"
  proof (cases "badge_at (x # xs)")
    case (Some pv)
    then obtain p v where "badge_at (x # xs) = Some (p, v)"
      by (cases pv) auto
    from badge_at_SomeD(1) [OF this] have "x = 60"
      by (simp add: str_def caseless_lt)
    with Cons.prems show ?thesis by simp
  qed simp
  with Cons show ?case by simp
qed

lemma set_strip: "set (strip_must_fail s) \<subseteq> set s"
proof (induction s rule: strip_must_fail.induct)
  case 1
  show ?case by simp
next
  case (2 x xs)
  show ?case
  proof (cases "caseless_prefix must_fail (x # xs)")
    case True
    with "2.IH"(1) set_drop_subset [of "length must_fail" "x # xs"] show ?thesis
      by (auto simp del: drop_Suc_Cons)
  next
    case False
    with "2.IH"(2) show ?thesis by auto
  qed
qed

lemma strip_line:
  "strip_must_fail (a @ newline # b) = strip_must_fail a @ newline # strip_must_fail b"
proof (induction a rule: strip_must_fail.induct)
  case 1
  have "newline \<noteq> 44" by (simp add: newline_def)
  then show ?case
    by (simp add: must_fail_cons caseless_comma)
next
  case (2 x xs)
  have same: "caseless_prefix must_fail ((x # xs) @ newline # b) = caseless_prefix must_fail (x # xs)"
    using cp_no_straddle [OF _ mf_seps(4), of "x # xs" b]
      cp_append [of must_fail "x # xs" "newline # b"]
    by blast
  show ?case
  proof (cases "caseless_prefix must_fail (x # xs)")
    case True
    from cp_length [OF True]
    have "drop (length must_fail) ((x # xs) @ newline # b)
        = drop (length must_fail) (x # xs) @ newline # b"
      by (simp only: drop_append) simp
    with True same "2.IH"(1) [OF True] show ?thesis
      by (simp del: drop_Suc_Cons)
  next
    case False
    with same "2.IH"(2) [OF False] show ?thesis
      by simp
  qed
qed

lemma split_lines_single: "newline \<notin> set l \<Longrightarrow> split_lines l = [l]"
  by (induction l) auto

lemma split_lines_append:
  "newline \<notin> set l \<Longrightarrow> split_lines (l @ newline # r) = l # split_lines r"
  by (induction l) auto

lemma commute_line:
  assumes "\<not> (caseless_infix must_fail l \<and> 60 \<in> set l)"
  shows "render_badges (strip_must_fail l) = strip_must_fail (render_badges l)"
proof (cases "caseless_infix must_fail l")
  case False
  then have "strip_must_fail l = l"
    by (rule strip_no_occurrence)
  moreover from render_keeps_marker_free [OF False]
  have "strip_must_fail (render_badges l) = render_badges l"
    by (rule strip_no_occurrence)
  ultimately show ?thesis by simp
next
  case True
  with assms have lt: "60 \<notin> set l" by simp
  with set_strip [of l] have "60 \<notin> set (strip_must_fail l)"
    by blast
  then have "render_badges (strip_must_fail l) = strip_must_fail l"
    by (intro render_no_badge no_lt_no_badge)
  moreover from lt have "render_badges l = l"
    by (intro render_no_badge no_lt_no_badge)
  ultimately show ?thesis by simp
qed

lemma commute_lines:
  "\<forall>l\<in>set (split_lines s). \<not> (caseless_infix must_fail l \<and> 60 \<in> set l) \<Longrightarrow>
     render_badges (strip_must_fail s) = strip_must_fail (render_badges s)"
proof (induction s rule: length_induct)
  case (1 s)
  show ?case
  proof (cases "newline \<in> set s")
    case False
    with "1.prems" show ?thesis
      by (simp add: split_lines_single commute_line)
  next
    case True
    then obtain l r where s: "s = l @ newline # r" and l: "newline \<notin> set l"
      by (auto dest: split_list_first)
    from "1.prems" s l have line: "\<not> (caseless_infix must_fail l \<and> 60 \<in> set l)"
      and rest: "\<forall>l\<in>set (split_lines r). \<not> (caseless_infix must_fail l \<and> 60 \<in> set l)"
      by (simp_all add: split_lines_append)
    from s have "length r < length s" by simp
    with "1.IH" rest have "render_badges (strip_must_fail r) = strip_must_fail (render_badges r)"
      by blast
    with commute_line [OF line] show ?thesis
      by (simp add: s strip_line render_line)
  qed
qed

lemma infix_lt: "caseless_infix (str ''<'') l \<longleftrightarrow> 60 \<in> set l"
  by (induction l) (auto simp: str_def caseless_lt)

text \<open>
  C3, as the claim states it, fails: a \<open>,must-fail\<close> inside an annotation keeps the
  badge pattern from matching until it is deleted, so the badge appears only when
  AnnotationStripper runs first.
\<close>

theorem hooks_commute_counterexample:
  "remove_must_fail_on_page_markdown (str ''<sup>Since,must-fail: 1</sup>'') () () ()
     = Inr (str ''<sup>Since: 1</sup>'')
   \<and> shortcodes_on_page_markdown (str ''<sup>Since: 1</sup>'') () () ()
     = Inr (str ''<span class=\"badge\">[Since: 1](https://github.com/YaLTeR/niri/releases/tag/v1)</span>'')
   \<and> shortcodes_on_page_markdown (str ''<sup>Since,must-fail: 1</sup>'') () () ()
     = Inr (str ''<sup>Since,must-fail: 1</sup>'')
   \<and> str ''<span class=\"badge\">[Since: 1](https://github.com/YaLTeR/niri/releases/tag/v1)</span>''
     \<noteq> str ''<sup>Since: 1</sup>''"
  by (simp add: remove_must_fail_strip shortcodes_render) (simp add: eval_badge)

text \<open>
  C3, amended: on every input in which no line holds both a case-insensitive occurrence
  of \<open>,must-fail\<close> and a \<open><\<close> character, AnnotationStripper followed by
  BadgeRenderer and BadgeRenderer followed by AnnotationStripper return the same text.
\<close>

theorem hooks_commute_on_separate_lines:
  assumes "\<forall>l\<in>set (split_lines s).
      \<not> (caseless_infix must_fail l \<and> caseless_infix (str ''<'') l)"
  shows "\<exists>a b out.
      remove_must_fail_on_page_markdown s page config files = Inr a
    \<and> shortcodes_on_page_markdown a page config files = Inr out
    \<and> shortcodes_on_page_markdown s page config files = Inr b
    \<and> remove_must_fail_on_page_markdown b page config files = Inr out"
  using commute_lines [of s] assms
  by (simp add: remove_must_fail_strip shortcodes_render infix_lt)

theorem hooks_commute_on_separate_lines_witness:
  "remove_must_fail_on_page_markdown
      (str ''```rust,must-fail'' @ newline # str ''<sup>Since: 0.1.0</sup>'') () () ()
     = Inr (str ''```rust'' @ newline # str ''<sup>Since: 0.1.0</sup>'')
   \<and> shortcodes_on_page_markdown
      (str ''```rust'' @ newline # str ''<sup>Since: 0.1.0</sup>'') () () ()
     = Inr (str ''```rust'' @ newline
         # str ''<span class=\"badge\">[Since: 0.1.0](https://github.com/YaLTeR/niri/releases/tag/v0.1.0)</span>'')
   \<and> shortcodes_on_page_markdown
      (str ''```rust,must-fail'' @ newline # str ''<sup>Since: 0.1.0</sup>'') () () ()
     = Inr (str ''```rust,must-fail'' @ newline
         # str ''<span class=\"badge\">[Since: 0.1.0](https://github.com/YaLTeR/niri/releases/tag/v0.1.0)</span>'')
   \<and> remove_must_fail_on_page_markdown
      (str ''```rust,must-fail'' @ newline
         # str ''<span class=\"badge\">[Since: 0.1.0](https://github.com/YaLTeR/niri/releases/tag/v0.1.0)</span>'') () () ()
     = Inr (str ''```rust'' @ newline
         # str ''<span class=\"badge\">[Since: 0.1.0](https://github.com/YaLTeR/niri/releases/tag/v0.1.0)</span>'')"
proof -
  let ?s = "str ''```rust,must-fail'' @ newline # str ''<sup>Since: 0.1.0</sup>''"
  have h: "\<forall>l\<in>set (split_lines ?s).
      \<not> (caseless_infix must_fail l \<and> caseless_infix (str ''<'') l)"
    by (simp add: eval_text)
  have strip: "remove_must_fail_on_page_markdown ?s () () ()
      = Inr (str ''```rust'' @ newline # str ''<sup>Since: 0.1.0</sup>'')"
    by (simp add: remove_must_fail_strip) (simp add: eval_text)
  have render: "shortcodes_on_page_markdown ?s () () ()
      = Inr (str ''```rust,must-fail'' @ newline
         # str ''<span class=\"badge\">[Since: 0.1.0](https://github.com/YaLTeR/niri/releases/tag/v0.1.0)</span>'')"
    by (simp add: shortcodes_render) (simp add: eval_badge)
  have out: "shortcodes_on_page_markdown
      (str ''```rust'' @ newline # str ''<sup>Since: 0.1.0</sup>'') () () ()
      = Inr (str ''```rust'' @ newline
         # str ''<span class=\"badge\">[Since: 0.1.0](https://github.com/YaLTeR/niri/releases/tag/v0.1.0)</span>'')"
    by (simp add: shortcodes_render) (simp add: eval_badge)
  from hooks_commute_on_separate_lines [OF h, of "()" "()" "()"] strip render out
  show ?thesis
    by auto
qed

section \<open>What \<open>badge_at\<close> finds\<close>

text \<open>
  The annotation \<open>badge_at\<close> finds at the head of a text is the one the specification
  describes: the tags and the preposition up to case, a colon and a space, and a version
  with no newline and no closing tag in it. With \<open>render_single_annotation\<close>, which
  is the converse, this ties the scan to the pattern's wording.
\<close>

lemma vl_minimal:
  "version_length t = Some n \<Longrightarrow> j < n \<Longrightarrow> \<not> caseless_prefix (str ''</sup>'') (drop j t)"
proof (induction t arbitrary: n j)
  case Nil
  then show ?case by simp
next
  case (Cons x xs)
  from Cons.prems obtain m where m: "\<not> caseless_prefix (str ''</sup>'') (x # xs)"
      "version_length xs = Some m" "n = Suc m"
    by (auto split: if_splits)
  show ?case
  proof (cases j)
    case 0
    with m(1) show ?thesis by simp
  next
    case (Suc i)
    with Cons.prems(2) m(3) Cons.IH [OF m(2), of i] show ?thesis
      by simp
  qed
qed

lemma version_has_no_close:
  assumes "version_length t = Some n"
  shows "\<not> caseless_infix (str ''</sup>'') (take n t)"
proof
  assume "caseless_infix (str ''</sup>'') (take n t)"
  then obtain i where i: "caseless_prefix (str ''</sup>'') (drop i (take n t))"
    by (auto simp: infix_iff_drop)
  then have c: "caseless_prefix (str ''</sup>'') (take (n - i) (drop i t))"
    by (simp add: drop_take)
  from cp_length [OF c] have "6 \<le> n - i"
    by (simp add: lit_lengths)
  then have "i < n"
    by linarith
  moreover from c have "caseless_prefix (str ''</sup>'') (drop i t)"
    by (rule cp_of_take)
  ultimately show False
    using vl_minimal [OF assms] by blast
qed

lemma colon_space: "caseless_prefix (str '': '') t \<Longrightarrow> take 2 t = str '': ''"
  by (cases t; cases "tl t")
    (auto simp: str_def caseless_def unicode_tolower_def ignorecase_fixes_def split: if_splits)

lemma badge_at_shape:
  assumes "badge_at s = Some (p, v)"
  shows "\<exists>opn cls rest. s = opn @ p @ str '': '' @ v @ cls @ rest
     \<and> caseless_eq (str ''<sup>'') opn
     \<and> (caseless_eq (str ''Until'') p \<or> caseless_eq (str ''Since'') p)
     \<and> caseless_eq (str ''</sup>'') cls
     \<and> newline \<notin> set v \<and> \<not> caseless_infix (str ''</sup>'') v"
proof -
  note d = badge_at_SomeD [OF assms]
  let ?n = "length v"
  let ?opn = "take 5 s" and ?cls = "take 6 (drop (12 + ?n) s)" and ?rest = "drop (18 + ?n) s"
  have e: "18 + ?n = 5 + (5 + (2 + (?n + 6)))"
    by simp
  have "take (18 + ?n) s = ?opn @ take 5 (drop 5 s) @ take 2 (drop 10 s)
      @ take ?n (drop 12 s) @ ?cls"
    by (simp only: e take_add) (simp add: add.commute)
  with d(5,6) colon_space [OF d(3)]
  have "take (18 + ?n) s = ?opn @ p @ str '': '' @ v @ ?cls"
    by simp
  then have "s = (?opn @ p @ str '': '' @ v @ ?cls) @ ?rest"
    by (metis append_take_drop_id)
  then have s: "s = ?opn @ p @ str '': '' @ v @ ?cls @ ?rest"
    by simp
  from d(1,7) cp_take [OF d(1)] have opn: "caseless_eq (str ''<sup>'') ?opn"
    by (simp add: caseless_eq_def lit_lengths)
  from d(2,5,7) cp_take [of "str ''Until''" "drop 5 s"] cp_take [of "str ''Since''" "drop 5 s"]
  have p: "caseless_eq (str ''Until'') p \<or> caseless_eq (str ''Since'') p"
    by (auto simp: caseless_eq_def lit_lengths)
  from d(7) cp_take [OF badge_at_close [OF assms]]
  have cls: "caseless_eq (str ''</sup>'') ?cls"
    by (simp add: caseless_eq_def lit_lengths)
  from vl_close [OF d(4)] d(6) have nl: "newline \<notin> set v"
    by simp
  from version_has_no_close [OF d(4)] d(6) have nc: "\<not> caseless_infix (str ''</sup>'') v"
    by simp
  from s opn p cls nl nc show ?thesis
    by blast
qed

end
